theory Spec2Isabelle
  imports Main "HOL-Library.Multiset"
begin

section \<open>Threaded Pseudo-Quantum Bogosort (tpqbogo.py)\<close>

subsection \<open>Data model\<close>

text \<open>
  Python lists are mutable objects that are passed by reference. The store holds the
  \<open>List[int]\<close> objects of the program: an address is a position in the store, and a
  new list object is allocated at the end of it. Tuples (what \<open>itertools.permutations\<close>
  yields) are immutable and stay values.
\<close>

type_synonym addr = nat
type_synonym heap = "int list list"

text \<open>\<open>class ThreadResult(NamedTuple)\<close>: \<open>sorted_array\<close> is a reference to a list.\<close>

record ThreadResult =
  thread_id :: int
  sorted_array :: addr

text \<open>\<open>class Result(NamedTuple)\<close>\<close>

record Result =
  num_of_permutations :: int
  successful_thread :: ThreadResult

text \<open>\<open>class MainResult(NamedTuple)\<close>: \<open>original_array\<close> is a reference to a list.\<close>

record MainResult =
  original_array :: addr
  elapsed_time_nanoseconds :: int
  result :: Result

text \<open>
  The two ways the code leaves a function without returning: \<open>r[0]\<close> on an empty list
  raises \<open>IndexError\<close>, and \<open>exit(1)\<close> raises \<open>SystemExit\<close> with the exit status of the
  interpreter.
\<close>

datatype error = IndexError | SystemExit int

subsection \<open>Library functions used by the program\<close>

text \<open>
  \<open>itertools.permutations(iterable)\<close> of the Python standard library, with \<open>r\<close> left at
  its default (the full length). The library documents that the tuples are emitted in
  lexicographic order according to the order of the input, and that elements are treated
  as unique by their position, not by their value: the first element of a permutation is
  chosen among the positions from left to right, followed by every permutation of what is
  left of the pool. The empty pool has one permutation, the empty tuple.
\<close>

function permutations :: "'a list \<Rightarrow> 'a list list" where
  "permutations pool =
     (if pool = [] then [[]]
      else concat (map (\<lambda>i. map ((#) (pool ! i))
                                (permutations (take i pool @ drop (Suc i) pool)))
                       [0..<length pool]))"
  by pat_completeness auto
termination
  by (relation "measure length") auto

declare permutations.simps [simp del]

text \<open>\<open>enumerate(xs)\<close>: pairs every element with its index, counted from 0.\<close>

definition enumerate_py :: "'a list \<Rightarrow> (int \<times> 'a) list" where
  "enumerate_py xs = zip (map int [0..<length xs]) xs"

text \<open>\<open>list(p)\<close>: a fresh list object with the elements of \<open>p\<close>.\<close>

definition new_list :: "int list \<Rightarrow> heap \<Rightarrow> addr \<times> heap" where
  "new_list vs h = (length h, h @ [vs])"

subsection \<open>The thread body\<close>

text \<open>
  \<open>is_sorted = all(left <= right for left, right in zip(arr, arr[1:]))\<close>
  (line 156); \<open>arr[1:]\<close> of the empty list is the empty list.
\<close>

definition is_sorted :: "int list \<Rightarrow> bool" where
  "is_sorted arr = list_all (\<lambda>(left, right). left \<le> right) (zip arr (drop 1 arr))"

text \<open>
  \<open>check_sort(idx, arr, results)\<close> (lines 144-166). The thread reads its own list and, when
  it is sorted, appends one \<open>ThreadResult\<close> to the shared list while holding the lock of
  \<open>Locked\<close>; otherwise it returns without any effect. The append under the lock is one
  atomic step on the shared list, so the thread body is a function from the shared list
  before the append to the shared list after it. The debug message is not modelled.
\<close>

definition check_sort :: "heap \<Rightarrow> int \<Rightarrow> addr \<Rightarrow> ThreadResult list \<Rightarrow> ThreadResult list" where
  "check_sort h idx arr results =
     (if \<not> is_sorted (h ! arr) then results
      else results @ [\<lparr>thread_id = idx, sorted_array = arr\<rparr>])"

subsection \<open>The orchestrator\<close>

text \<open>
  \<open>arr_permutations = [list(p) for p in permutations(arr)]\<close> (line 170): one fresh list
  per permutation, in the order of generation.
\<close>

fun copy_all :: "int list list \<Rightarrow> heap \<Rightarrow> addr list \<times> heap" where
  "copy_all [] h = ([], h)"
| "copy_all (p # ps) h =
     (case new_list p h of (a, h1) \<Rightarrow>
      case copy_all ps h1 of (as, h2) \<Rightarrow> (a # as, h2))"

text \<open>
  The spawn loop (lines 179-187): for every \<open>(idx, perm)\<close> of the enumeration, a thread is
  created with the arguments \<open>idx\<close> and \<open>list(perm)\<close>, a private copy of the permutation,
  and appended to \<open>threads\<close>. A thread is represented by its two arguments; the third one,
  the shared result list, is the same for all.
\<close>

fun spawn_threads :: "(int \<times> addr) list \<Rightarrow> heap \<Rightarrow> (int \<times> addr) list \<times> heap" where
  "spawn_threads [] h = ([], h)"
| "spawn_threads ((idx, perm) # rest) h =
     (case new_list (h ! perm) h of (a, h1) \<Rightarrow>
      case spawn_threads rest h1 of (threads, h2) \<Rightarrow> ((idx, a) # threads, h2))"

text \<open>Lines 170-187 together: materialise the permutations and create the threads.\<close>

definition fan_out :: "addr \<Rightarrow> heap \<Rightarrow> (int \<times> addr) list \<times> heap" where
  "fan_out arr h =
     (case copy_all (permutations (h ! arr)) h of (arr_permutations, h1) \<Rightarrow>
      spawn_threads (enumerate_py arr_permutations) h1)"

text \<open>
  The threads run concurrently. Each one touches shared state only in its append under
  the lock, so a run of all threads up to the join barrier (lines 190-191) is determined
  by the order in which the threads take their turn: a schedule is a list of positions in
  \<open>threads\<close>, and \<open>run_threads\<close> executes the thread bodies in that order on the shared
  result list. A position that names no thread does nothing. A thread may run while
  later ones are still being created; since no thread body writes to a list of the store,
  running the bodies after the spawn loop gives the same result list. The limits of the
  interpreter on memory and on the number of threads are not modelled.
\<close>

fun run_threads :: "heap \<Rightarrow> (int \<times> addr) list \<Rightarrow> nat list \<Rightarrow> ThreadResult list \<Rightarrow> ThreadResult list" where
  "run_threads h threads [] results = results"
| "run_threads h threads (t # sched) results =
     (if t < length threads
      then run_threads h threads sched
             (check_sort h (fst (threads ! t)) (snd (threads ! t)) results)
      else run_threads h threads sched results)"

text \<open>
  After the join barrier every one of the \<open>n\<close> threads has run, and each has run once:
  the schedules of real runs are the arrangements of \<open>0, ..., n - 1\<close>.
\<close>

definition complete_schedule :: "nat \<Rightarrow> nat list \<Rightarrow> bool" where
  "complete_schedule n sched = (sort sched = [0..<n])"

text \<open>
  The result extraction (lines 194-200): \<open>first_to_survive = r[0]\<close>, which raises
  \<open>IndexError\<close> on the empty list.
\<close>

definition extract_result :: "int \<Rightarrow> ThreadResult list \<Rightarrow> error + Result" where
  "extract_result permutation_count r =
     (case r of
        [] \<Rightarrow> Inl IndexError
      | first_to_survive # _ \<Rightarrow>
          Inr \<lparr>num_of_permutations = permutation_count, successful_thread = first_to_survive\<rparr>)"

text \<open>The result list as it is read after the join barrier (line 194).\<close>

definition joined_results :: "nat list \<Rightarrow> addr \<Rightarrow> heap \<Rightarrow> ThreadResult list" where
  "joined_results sched arr h =
     (case fan_out arr h of (threads, h2) \<Rightarrow> run_threads h2 threads sched [])"

text \<open>
  \<open>tpqbogo(arr)\<close> (lines 131-200), for the schedule \<open>sched\<close> of its threads. It returns the
  \<open>Result\<close> or the exception, and the store after the call.
\<close>

definition tpqbogo :: "nat list \<Rightarrow> addr \<Rightarrow> heap \<Rightarrow> (error + Result) \<times> heap" where
  "tpqbogo sched arr h =
     (let permutation_count = fact (length (h ! arr)) in
      (extract_result permutation_count (joined_results sched arr h), snd (fan_out arr h)))"

subsection \<open>The caller\<close>

text \<open>
  \<open>main(array_size)\<close> (lines 264-295). \<open>random.shuffle\<close> reorders the list in place; the
  random choice is the parameter \<open>shuffle\<close>, the two readings of \<open>perf_counter_ns\<close> are
  \<open>timer_start\<close> and \<open>timer_end\<close>. \<open>list(range(1, array_size + 1))\<close> is \<open>[1..array_size]\<close>,
  empty when \<open>array_size < 1\<close>. The message on stderr is not modelled.
\<close>

definition main ::
  "(int list \<Rightarrow> int list) \<Rightarrow> int \<Rightarrow> int \<Rightarrow> nat list \<Rightarrow> int \<Rightarrow> heap \<Rightarrow> (error + MainResult) \<times> heap" where
  "main shuffle timer_start timer_end sched array_size h =
     (case new_list [1..array_size] h of (arr, h1) \<Rightarrow>
      let h2 = h1[arr := shuffle (h1 ! arr)] in
      if array_size < 1 then (Inl (SystemExit 1), h2)
      else
        (case tpqbogo sched arr h2 of
           (Inl e, h3) \<Rightarrow> (Inl e, h3)
         | (Inr res, h3) \<Rightarrow>
             (let time_elapsed = timer_end - timer_start in
              (Inr \<lparr>original_array = arr, elapsed_time_nanoseconds = time_elapsed,
                    result = res\<rparr>, h3))))"

section \<open>Properties\<close>

subsection \<open>Permutations\<close>

lemma permutations_Nil: "permutations [] = [[]]"
  by (simp add: permutations.simps)

text \<open>The order of emission on a small pool, as the library produces it.\<close>

lemma permutations_example:
  "permutations [3, 1, 2 :: int]
   = [[3, 1, 2], [3, 2, 1], [1, 3, 2], [1, 2, 3], [2, 3, 1], [2, 1, 3]]"
  by code_simp

lemma permutations_unfold:
  "pool \<noteq> [] \<Longrightarrow> permutations pool =
     concat (map (\<lambda>i. map ((#) (pool ! i)) (permutations (take i pool @ drop (Suc i) pool)))
                 [0..<length pool])"
  by (subst permutations.simps) simp

lemma mset_remove_position:
  assumes "i < length xs"
  shows "add_mset (xs ! i) (mset (take i xs @ drop (Suc i) xs)) = mset xs"
proof -
  have "xs = take i xs @ xs ! i # drop (Suc i) xs"
    using assms by (rule id_take_nth_drop)
  then have "mset xs = mset (take i xs @ xs ! i # drop (Suc i) xs)" by simp
  then show ?thesis by simp
qed

lemma length_permutations: "length (permutations xs) = fact (length xs)"
proof (induction xs rule: permutations.induct)
  case (1 pool)
  show ?case
  proof (cases "pool = []")
    case True
    then show ?thesis by (simp add: permutations_Nil)
  next
    case False
    then obtain n where n: "length pool = Suc n" by (cases pool) auto
    have "length (permutations (take i pool @ drop (Suc i) pool)) = fact n"
      if "i < length pool" for i
    proof -
      have "length (take i pool @ drop (Suc i) pool) = n" using that n by auto
      moreover have "i \<in> set [0..<length pool]" using that by simp
      ultimately show ?thesis using 1 [OF False] by metis
    qed
    then have eq: "map (\<lambda>i. length (permutations (take i pool @ drop (Suc i) pool))) [0..<length pool]
               = map (\<lambda>i. fact n) [0..<length pool]"
      by simp
    have "length (permutations pool) =
          sum_list (map (\<lambda>i. length (permutations (take i pool @ drop (Suc i) pool))) [0..<length pool])"
      using False by (simp add: permutations_unfold length_concat comp_def)
    also have "\<dots> = length pool * fact n"
      unfolding eq by (simp add: sum_list_triv)
    also have "\<dots> = fact (length pool)" using n by simp
    finally show ?thesis .
  qed
qed

lemma in_permutations_unfold:
  assumes "pool \<noteq> []"
  shows "ys \<in> set (permutations pool) \<longleftrightarrow>
         (\<exists>i p. i < length pool \<and> p \<in> set (permutations (take i pool @ drop (Suc i) pool))
                \<and> ys = pool ! i # p)"
  using assms by (auto simp: permutations_unfold)

lemma in_permutations_iff: "ys \<in> set (permutations xs) \<longleftrightarrow> mset ys = mset xs"
proof (induction xs arbitrary: ys rule: permutations.induct)
  case (1 pool)
  show ?case
  proof (cases "pool = []")
    case True
    then show ?thesis by (simp add: permutations_Nil)
  next
    case False
    have IH: "p \<in> set (permutations (take i pool @ drop (Suc i) pool))
              \<longleftrightarrow> mset p = mset (take i pool @ drop (Suc i) pool)"
      if "i < length pool" for i p
      using 1 [OF False, of i p] that by simp
    show ?thesis
    proof
      assume "ys \<in> set (permutations pool)"
      then obtain i p where i: "i < length pool"
        and p: "p \<in> set (permutations (take i pool @ drop (Suc i) pool))"
        and ys: "ys = pool ! i # p"
        using in_permutations_unfold [OF False] by blast
      have "mset p = mset (take i pool @ drop (Suc i) pool)" using IH [OF i] p by simp
      then have "mset ys = add_mset (pool ! i) (mset (take i pool @ drop (Suc i) pool))"
        using ys by simp
      then show "mset ys = mset pool" using mset_remove_position [OF i] by simp
    next
      assume eq: "mset ys = mset pool"
      then have "ys \<noteq> []" using False by auto
      then obtain y p where ys: "ys = y # p" by (cases ys) auto
      have "y \<in># mset pool" using eq ys by (metis list.set_intros(1) set_mset_mset)
      then have "y \<in> set pool" by simp
      then obtain i where i: "i < length pool" and y: "pool ! i = y"
        by (auto simp: in_set_conv_nth)
      have "add_mset y (mset p) = add_mset y (mset (take i pool @ drop (Suc i) pool))"
        using eq ys mset_remove_position [OF i] y by simp
      then have "mset p = mset (take i pool @ drop (Suc i) pool)" by simp
      then have "p \<in> set (permutations (take i pool @ drop (Suc i) pool))"
        using IH [OF i] by simp
      then show "ys \<in> set (permutations pool)"
        using in_permutations_unfold [OF False] i y ys by blast
    qed
  qed
qed

lemma permutations_map: "permutations (map f xs) = map (map f) (permutations xs)"
proof (induction xs rule: permutations.induct)
  case (1 pool)
  show ?case
  proof (cases "pool = []")
    case True
    then show ?thesis by (simp add: permutations_Nil)
  next
    case False
    have IH: "permutations (map f (take i pool @ drop (Suc i) pool))
              = map (map f) (permutations (take i pool @ drop (Suc i) pool))"
      if "i < length pool" for i
      using 1 [OF False, of i] that by simp
    have "permutations (map f pool) =
          concat (map (\<lambda>i. map ((#) (map f pool ! i))
                        (permutations (take i (map f pool) @ drop (Suc i) (map f pool))))
                      [0..<length pool])"
      using False by (simp add: permutations_unfold)
    also have "\<dots> = concat (map (\<lambda>i. map (map f) (map ((#) (pool ! i))
                        (permutations (take i pool @ drop (Suc i) pool))))
                      [0..<length pool])"
    proof -
      have "map ((#) (map f pool ! i))
                 (permutations (take i (map f pool) @ drop (Suc i) (map f pool)))
            = map (map f) (map ((#) (pool ! i)) (permutations (take i pool @ drop (Suc i) pool)))"
        if "i < length pool" for i
      proof -
        have "take i (map f pool) @ drop (Suc i) (map f pool)
              = map f (take i pool @ drop (Suc i) pool)"
          by (simp add: take_map drop_map)
        then show ?thesis using IH [OF that] that by simp
      qed
      then show ?thesis by (intro arg_cong [where f = concat] map_cong) auto
    qed
    also have "\<dots> = map (map f) (permutations pool)"
      using False by (simp add: permutations_unfold map_concat comp_def)
    finally show ?thesis .
  qed
qed

lemma permutations_by_position:
  "permutations xs = map (map ((!) xs)) (permutations [0..<length xs])"
proof -
  have "permutations xs = permutations (map ((!) xs) [0..<length xs])"
    by (simp add: map_nth)
  then show ?thesis by (simp only: permutations_map)
qed

lemma distinct_permutations: "distinct xs \<Longrightarrow> distinct (permutations xs)"
proof (induction xs rule: permutations.induct)
  case (1 pool)
  show ?case
  proof (cases "pool = []")
    case True
    then show ?thesis by (simp add: permutations_Nil)
  next
    case False
    let ?rest = "\<lambda>i. permutations (take i pool @ drop (Suc i) pool)"
    let ?g = "\<lambda>i. map ((#) (pool ! i)) (?rest i)"
    have dist_pool: "distinct pool" by (rule "1.prems")
    have IH: "distinct (?rest i)" if "i < length pool" for i
    proof -
      have "distinct (take i pool @ drop i pool)" using dist_pool by simp
      then have "set (take i pool) \<inter> set (drop i pool) = {}" by (simp only: distinct_append)
      moreover have "set (drop (Suc i) pool) \<subseteq> set (drop i pool)"
        by (rule set_drop_subset_set_drop) simp
      ultimately have "set (take i pool) \<inter> set (drop (Suc i) pool) = {}" by blast
      then have "distinct (take i pool @ drop (Suc i) pool)"
        using dist_pool by (simp add: distinct_take distinct_drop)
      then show ?thesis using 1(1) [OF False, of i] that by simp
    qed
    have heads: "hd ys = pool ! i" "ys \<noteq> []" if "ys \<in> set (?g i)" for ys i
      using that by auto
    have nonempty: "?g i \<noteq> []" for i
    proof -
      have "length (?rest i) > 0" by (simp add: length_permutations)
      then show ?thesis by auto
    qed
    have inj: "i = j" if "i < length pool" "j < length pool" "?g i = ?g j" for i j
    proof -
      obtain ys where ys: "ys \<in> set (?g i)" using nonempty [of i] by (meson last_in_set)
      then have "hd ys = pool ! i" by (rule heads)
      moreover have "hd ys = pool ! j" using ys that(3) heads(1) [of ys j] by simp
      ultimately show ?thesis using dist_pool that(1,2) by (simp add: nth_eq_iff_index_eq)
    qed
    have "distinct (concat (map ?g [0..<length pool]))"
    proof (rule distinct_concat)
      show "distinct (map ?g [0..<length pool])"
        by (auto simp: distinct_map intro!: inj_onI inj)
    next
      fix ys assume "ys \<in> set (map ?g [0..<length pool])"
      then obtain i where "i < length pool" "ys = ?g i" by auto
      then show "distinct ys" using IH by (simp add: distinct_map)
    next
      fix ys zs
      assume "ys \<in> set (map ?g [0..<length pool])" "zs \<in> set (map ?g [0..<length pool])"
        and ne: "ys \<noteq> zs"
      then obtain i j where i: "i < length pool" "ys = ?g i" and j: "j < length pool" "zs = ?g j"
        by auto
      have "i \<noteq> j" using ne i j by auto
      then have "pool ! i \<noteq> pool ! j" using dist_pool i(1) j(1) by (simp add: nth_eq_iff_index_eq)
      then show "set ys \<inter> set zs = {}" using i(2) j(2) by auto
    qed
    then show ?thesis using False by (simp add: permutations_unfold)
  qed
qed

lemma is_sorted_iff_sorted: "is_sorted xs = sorted xs"
proof (induction xs rule: induct_list012)
  case 1 show ?case by (simp add: is_sorted_def)
next
  case (2 x) show ?case by (simp add: is_sorted_def)
next
  case (3 x y zs)
  have "is_sorted (x # y # zs) = (x \<le> y \<and> is_sorted (y # zs))"
    by (simp add: is_sorted_def)
  also have "\<dots> = (x \<le> y \<and> sorted (y # zs))" using 3 by simp
  also have "\<dots> = sorted (x # y # zs)" by auto
  finally show ?case .
qed

subsection \<open>Allocation and thread creation\<close>

lemma copy_all_eq: "copy_all ps h = ([length h..<length h + length ps], h @ ps)"
proof (induction ps arbitrary: h)
  case Nil
  show ?case by simp
next
  case (Cons p ps)
  have "[length h..<length h + length (p # ps)] = length h # [Suc (length h)..<Suc (length h) + length ps]"
    by (simp add: upt_conv_Cons del: upt_Suc)
  then show ?case using Cons [of "h @ [p]"] by (simp add: new_list_def del: upt_Suc)
qed

lemma spawn_threads_eq:
  assumes "\<forall>e \<in> set es. snd e < length h"
  shows "spawn_threads es h =
           (zip (map fst es) [length h..<length h + length es], h @ map (\<lambda>e. h ! snd e) es)"
  using assms
proof (induction es arbitrary: h)
  case Nil
  show ?case by simp
next
  case (Cons e es)
  obtain idx perm where e: "e = (idx, perm)" by (cases e)
  let ?h1 = "h @ [h ! perm]"
  have in_range: "\<forall>e \<in> set es. snd e < length ?h1" using Cons.prems by auto
  have same: "map (\<lambda>e. ?h1 ! snd e) es = map (\<lambda>e. h ! snd e) es"
    using Cons.prems by (auto simp: nth_append)
  show ?case
    unfolding e using Cons.IH [OF in_range] same
    by (simp add: new_list_def upt_conv_Cons del: upt_Suc)
qed

lemma fan_out_eq:
  "fan_out arr h =
     (zip (map int [0..<length (permutations (h ! arr))])
          [length h + length (permutations (h ! arr))..<
           length h + length (permutations (h ! arr)) + length (permutations (h ! arr))],
      h @ permutations (h ! arr) @ permutations (h ! arr))"
proof -
  let ?ps = "permutations (h ! arr)"
  let ?n = "length ?ps"
  let ?es = "enumerate_py [length h..<length h + ?n]"
  have len: "length ?es = ?n" by (simp add: enumerate_py_def)
  have fst_es: "map fst ?es = map int [0..<?n]" by (simp add: enumerate_py_def)
  have snd_es: "map snd ?es = [length h..<length h + ?n]" by (simp add: enumerate_py_def)
  have in_range: "\<forall>e \<in> set ?es. snd e < length (h @ ?ps)"
  proof
    fix e assume "e \<in> set ?es"
    then have "snd e \<in> set (map snd ?es)" by simp
    then show "snd e < length (h @ ?ps)" unfolding snd_es by simp
  qed
  have "map (\<lambda>e. (h @ ?ps) ! snd e) ?es = map ((!) (h @ ?ps)) (map snd ?es)" by simp
  also have "\<dots> = map ((!) (h @ ?ps)) [length h..<length h + ?n]" by (simp only: snd_es)
  also have "\<dots> = ?ps"
    by (rule nth_equalityI) (simp_all add: nth_append)
  finally have copies: "map (\<lambda>e. (h @ ?ps) ! snd e) ?es = ?ps" .
  show ?thesis
    unfolding fan_out_def copy_all_eq
    using spawn_threads_eq [OF in_range] len fst_es copies
    by simp
qed

subsection \<open>Runs of the threads\<close>

lemma run_threads_filter:
  assumes "\<forall>t \<in> set sched. t < length threads"
  shows "run_threads h threads sched results
         = results @ map (\<lambda>t. \<lparr>thread_id = fst (threads ! t), sorted_array = snd (threads ! t)\<rparr>)
                         (filter (\<lambda>t. is_sorted (h ! snd (threads ! t))) sched)"
  using assms
  by (induction sched arbitrary: results) (auto simp: check_sort_def)

lemma complete_schedule_mset: "complete_schedule n sched \<Longrightarrow> mset sched = mset [0..<n]"
  by (metis complete_schedule_def mset_sort)

lemma complete_schedule_set: "complete_schedule n sched \<Longrightarrow> set sched = {0..<n}"
  by (metis complete_schedule_mset set_mset_mset set_upt)

lemma complete_schedule_length: "complete_schedule n sched \<Longrightarrow> length sched = n"
  by (metis complete_schedule_mset size_mset length_upt diff_zero)

lemma thread_copy_nth:
  assumes "k < length ps"
  shows "(h @ ps @ ps) ! (length h + length ps + k) = ps ! k"
  using assms by (simp add: nth_append)

lemma joined_results_eq:
  assumes "\<forall>t \<in> set sched. t < length (permutations (h ! arr))"
  shows "joined_results sched arr h =
           map (\<lambda>k. \<lparr>thread_id = int k,
                      sorted_array = length h + length (permutations (h ! arr)) + k\<rparr>)
               (filter (\<lambda>k. is_sorted (permutations (h ! arr) ! k)) sched)"
proof -
  let ?ps = "permutations (h ! arr)"
  let ?n = "length ?ps"
  let ?threads = "zip (map int [0..<?n]) [length h + ?n..<length h + ?n + ?n]"
  let ?h2 = "h @ ?ps @ ?ps"
  have len: "length ?threads = ?n" by simp
  have in_range: "\<forall>t \<in> set sched. t < length ?threads" using assms by simp
  have thr: "?threads ! k = (int k, length h + ?n + k)" if "k < ?n" for k
    using that by simp
  have "joined_results sched arr h = run_threads ?h2 ?threads sched []"
    by (simp add: joined_results_def fan_out_eq)
  also have "\<dots> = map (\<lambda>t. \<lparr>thread_id = fst (?threads ! t), sorted_array = snd (?threads ! t)\<rparr>)
                         (filter (\<lambda>t. is_sorted (?h2 ! snd (?threads ! t))) sched)"
    using run_threads_filter [OF in_range, of ?h2 "[]"] by simp
  also have "filter (\<lambda>t. is_sorted (?h2 ! snd (?threads ! t))) sched
             = filter (\<lambda>k. is_sorted (?ps ! k)) sched"
  proof (rule filter_cong [OF refl])
    fix t assume "t \<in> set sched"
    then have t: "t < ?n" using assms by simp
    show "is_sorted (?h2 ! snd (?threads ! t)) = is_sorted (?ps ! t)"
      by (simp only: thr [OF t] snd_conv thread_copy_nth [OF t])
  qed
  also have "map (\<lambda>t. \<lparr>thread_id = fst (?threads ! t), sorted_array = snd (?threads ! t)\<rparr>)
                 (filter (\<lambda>k. is_sorted (?ps ! k)) sched)
             = map (\<lambda>k. \<lparr>thread_id = int k, sorted_array = length h + ?n + k\<rparr>)
                 (filter (\<lambda>k. is_sorted (?ps ! k)) sched)"
  proof (rule map_cong [OF refl])
    fix t assume "t \<in> set (filter (\<lambda>k. is_sorted (?ps ! k)) sched)"
    then have t: "t < ?n" using assms by simp
    show "\<lparr>thread_id = fst (?threads ! t), sorted_array = snd (?threads ! t)\<rparr>
          = \<lparr>thread_id = int t, sorted_array = length h + ?n + t\<rparr>"
      by (simp only: thr [OF t] fst_conv snd_conv)
  qed
  finally show ?thesis .
qed

lemma sorted_permutation_exists: "\<exists>k < length (permutations xs). is_sorted (permutations xs ! k)"
proof -
  have "sort xs \<in> set (permutations xs)" by (simp add: in_permutations_iff)
  then obtain k where "k < length (permutations xs)" "permutations xs ! k = sort xs"
    by (auto simp: in_set_conv_nth)
  then show ?thesis by (auto simp: is_sorted_iff_sorted)
qed

lemma length_joined_results:
  assumes "complete_schedule (length (permutations (h ! arr))) sched"
  shows "length (joined_results sched arr h) = length (filter is_sorted (permutations (h ! arr)))"
proof -
  let ?ps = "permutations (h ! arr)"
  let ?P = "\<lambda>k. is_sorted (?ps ! k)"
  have in_range: "\<forall>t \<in> set sched. t < length ?ps"
    using complete_schedule_set [OF assms] by simp
  have "length (joined_results sched arr h) = length (filter ?P sched)"
    by (simp add: joined_results_eq [OF in_range])
  also have "\<dots> = size (filter_mset ?P (mset sched))"
    by (metis mset_filter size_mset)
  also have "\<dots> = size (filter_mset ?P (mset [0..<length ?ps]))"
    by (simp only: complete_schedule_mset [OF assms])
  also have "\<dots> = length (filter ?P [0..<length ?ps])"
    by (metis mset_filter size_mset)
  also have "\<dots> = length (map ((!) ?ps) (filter (is_sorted \<circ> (!) ?ps) [0..<length ?ps]))"
    by (simp add: comp_def)
  also have "\<dots> = length (filter is_sorted (map ((!) ?ps) [0..<length ?ps]))"
    by (simp only: filter_map)
  also have "\<dots> = length (filter is_sorted ?ps)"
    by (simp only: map_nth)
  finally show ?thesis .
qed

lemma joined_results_first:
  assumes "complete_schedule (length (permutations (h ! arr))) sched"
  shows "\<exists>k rest. k < length (permutations (h ! arr)) \<and> is_sorted (permutations (h ! arr) ! k) \<and>
           joined_results sched arr h =
             \<lparr>thread_id = int k,
              sorted_array = length h + length (permutations (h ! arr)) + k\<rparr> # rest"
proof -
  let ?ps = "permutations (h ! arr)"
  let ?P = "\<lambda>k. is_sorted (?ps ! k)"
  have set_sched: "set sched = {0..<length ?ps}" by (rule complete_schedule_set [OF assms])
  then have in_range: "\<forall>t \<in> set sched. t < length ?ps" by simp
  obtain k0 where "k0 < length ?ps" "?P k0" using sorted_permutation_exists by blast
  then have "k0 \<in> set (filter ?P sched)" using set_sched by simp
  then obtain k ks where ks: "filter ?P sched = k # ks" by (cases "filter ?P sched") auto
  then have "k \<in> set (filter ?P sched)" by simp
  then have "k < length ?ps" "?P k" using set_sched by simp_all
  then show ?thesis using joined_results_eq [OF in_range] ks by simp
qed

lemma sorted_permutation_unique:
  assumes "distinct xs"
  shows "length (filter is_sorted (permutations xs)) = 1"
proof -
  have "set (filter is_sorted (permutations xs)) = {sort xs}"
  proof (rule set_eqI)
    fix ys
    have "ys \<in> set (filter is_sorted (permutations xs)) \<longleftrightarrow> mset ys = mset xs \<and> sorted ys"
      by (simp add: in_permutations_iff is_sorted_iff_sorted)
    also have "\<dots> \<longleftrightarrow> ys = sort xs"
      using properties_for_sort [of ys xs] by auto
    finally show "ys \<in> set (filter is_sorted (permutations xs)) \<longleftrightarrow> ys \<in> {sort xs}" by simp
  qed
  moreover have "distinct (filter is_sorted (permutations xs))"
    using distinct_permutations [OF assms] by (rule distinct_filter)
  ultimately have "length (filter is_sorted (permutations xs)) = card {sort xs}"
    by (metis distinct_card)
  then show ?thesis by simp
qed

lemma fan_out_copies:
  "map (\<lambda>t. snd (fan_out arr h) ! snd t) (fst (fan_out arr h)) = permutations (h ! arr)"
proof (rule nth_equalityI)
  show "length (map (\<lambda>t. snd (fan_out arr h) ! snd t) (fst (fan_out arr h)))
        = length (permutations (h ! arr))"
    by (simp add: fan_out_eq)
next
  fix k assume "k < length (map (\<lambda>t. snd (fan_out arr h) ! snd t) (fst (fan_out arr h)))"
  then have k: "k < length (permutations (h ! arr))" by (simp add: fan_out_eq)
  then show "map (\<lambda>t. snd (fan_out arr h) ! snd t) (fst (fan_out arr h)) ! k
             = permutations (h ! arr) ! k"
    using thread_copy_nth [OF k, of h] by (simp add: fan_out_eq)
qed

lemma tpqbogo_returns:
  assumes "complete_schedule (fact (length (h ! arr))) sched"
  shows "\<exists>k < length (permutations (h ! arr)).
           is_sorted (permutations (h ! arr) ! k) \<and>
           tpqbogo sched arr h =
             (Inr \<lparr>num_of_permutations = fact (length (h ! arr)),
                   successful_thread =
                     \<lparr>thread_id = int k,
                      sorted_array = length h + length (permutations (h ! arr)) + k\<rparr>\<rparr>,
              h @ permutations (h ! arr) @ permutations (h ! arr))"
proof -
  have sched: "complete_schedule (length (permutations (h ! arr))) sched"
    using assms by (simp add: length_permutations)
  obtain k rest where k: "k < length (permutations (h ! arr))"
    and srt: "is_sorted (permutations (h ! arr) ! k)"
    and joined: "joined_results sched arr h =
             \<lparr>thread_id = int k,
              sorted_array = length h + length (permutations (h ! arr)) + k\<rparr> # rest"
    using joined_results_first [OF sched] by blast
  have "tpqbogo sched arr h =
             (Inr \<lparr>num_of_permutations = fact (length (h ! arr)),
                   successful_thread =
                     \<lparr>thread_id = int k,
                      sorted_array = length h + length (permutations (h ! arr)) + k\<rparr>\<rparr>,
              h @ permutations (h ! arr) @ permutations (h ! arr))"
    by (simp add: tpqbogo_def joined extract_result_def fan_out_eq)
  then show ?thesis using k srt by blast
qed

lemma main_calls_tpqbogo:
  assumes "1 \<le> array_size"
  shows "main shuffle timer_start timer_end sched array_size h =
           (case tpqbogo sched (length h) (h @ [shuffle [1..array_size]]) of
              (Inl e, h3) \<Rightarrow> (Inl e, h3)
            | (Inr res, h3) \<Rightarrow>
                (Inr \<lparr>original_array = length h,
                      elapsed_time_nanoseconds = timer_end - timer_start,
                      result = res\<rparr>, h3))"
  using assms by (simp add: main_def new_list_def Let_def split: prod.split sum.split)

section \<open>The claims\<close>

text \<open>
  C1: for every array of size at least 1, in any order, and every run of the threads,
  \<open>tpqbogo\<close> returns a \<open>Result\<close>, and the list \<open>successful_thread.sorted_array\<close> of it is
  non-decreasing: \<open>is_sorted\<close> holds of it.
\<close>

theorem tpqbogo_winner_sorted:
  assumes "1 \<le> length (h ! arr)"
    and "complete_schedule (fact (length (h ! arr))) sched"
  shows "\<exists>res h'. tpqbogo sched arr h = (Inr res, h') \<and>
                   is_sorted (h' ! sorted_array (successful_thread res))"
proof -
  obtain k where k: "k < length (permutations (h ! arr))"
    and srt: "is_sorted (permutations (h ! arr) ! k)"
    and run: "tpqbogo sched arr h =
             (Inr \<lparr>num_of_permutations = fact (length (h ! arr)),
                   successful_thread =
                     \<lparr>thread_id = int k,
                      sorted_array = length h + length (permutations (h ! arr)) + k\<rparr>\<rparr>,
              h @ permutations (h ! arr) @ permutations (h ! arr))"
    using tpqbogo_returns [OF assms(2)] by blast
  show ?thesis
    unfolding run using srt thread_copy_nth [OF k, of h] by simp
qed

theorem tpqbogo_winner_sorted_witness:
  "1 \<le> length ([[3, 1, 2]] ! 0 :: int list) \<and>
   complete_schedule (fact (length ([[3, 1, 2]] ! 0 :: int list))) [5, 4, 3, 2, 1, 0] \<and>
   (\<exists>res h'. tpqbogo [5, 4, 3, 2, 1, 0] 0 [[3, 1, 2]] = (Inr res, h') \<and>
              is_sorted (h' ! sorted_array (successful_thread res)))"
proof -
  have len: "1 \<le> length ([[3, 1, 2]] ! 0 :: int list)" by simp
  have sched: "complete_schedule (fact (length ([[3, 1, 2]] ! 0 :: int list))) [5, 4, 3, 2, 1, 0]"
    by code_simp
  show ?thesis using len sched tpqbogo_winner_sorted [OF len sched] by blast
qed

text \<open>
  C2: for every array of size at least 1, in any order, the elements of the winning list
  \<open>successful_thread.sorted_array\<close> are, as a multiset, the elements of the input array.
\<close>

theorem tpqbogo_winner_permutation:
  assumes "1 \<le> length (h ! arr)"
    and "complete_schedule (fact (length (h ! arr))) sched"
  shows "\<exists>res h'. tpqbogo sched arr h = (Inr res, h') \<and>
                   mset (h' ! sorted_array (successful_thread res)) = mset (h ! arr)"
proof -
  obtain k where k: "k < length (permutations (h ! arr))"
    and run: "tpqbogo sched arr h =
             (Inr \<lparr>num_of_permutations = fact (length (h ! arr)),
                   successful_thread =
                     \<lparr>thread_id = int k,
                      sorted_array = length h + length (permutations (h ! arr)) + k\<rparr>\<rparr>,
              h @ permutations (h ! arr) @ permutations (h ! arr))"
    using tpqbogo_returns [OF assms(2)] by blast
  have "permutations (h ! arr) ! k \<in> set (permutations (h ! arr))"
    using k by (rule nth_mem)
  then have "mset (permutations (h ! arr) ! k) = mset (h ! arr)"
    by (simp only: in_permutations_iff)
  then show ?thesis
    unfolding run using thread_copy_nth [OF k, of h] by simp
qed

theorem tpqbogo_winner_permutation_witness:
  "1 \<le> length ([[7], [2, 2, 1]] ! 1 :: int list) \<and>
   complete_schedule (fact (length ([[7], [2, 2, 1]] ! 1 :: int list))) [0, 2, 4, 1, 3, 5] \<and>
   (\<exists>res h'. tpqbogo [0, 2, 4, 1, 3, 5] 1 [[7], [2, 2, 1]] = (Inr res, h') \<and>
              mset (h' ! sorted_array (successful_thread res)) = mset ([[7], [2, 2, 1]] ! 1))"
proof -
  have len: "1 \<le> length ([[7], [2, 2, 1]] ! 1 :: int list)" by simp
  have sched:
    "complete_schedule (fact (length ([[7], [2, 2, 1]] ! 1 :: int list))) [0, 2, 4, 1, 3, 5]"
    by code_simp
  show ?thesis using len sched tpqbogo_winner_permutation [OF len sched] by blast
qed

text \<open>
  C3: for every array of size \<open>N\<close> at least 1, the field \<open>num_of_permutations\<close> of the
  returned \<open>Result\<close> is \<open>factorial(N)\<close>, and it is the number of permutations generated
  and checked: one thread is created per generated permutation, the thread at place \<open>k\<close>
  holds a copy of the \<open>k\<close>-th permutation, every thread runs exactly once, and each run
  checks the thread's list with \<open>is_sorted\<close>, so that the result list after the join
  barrier consists of exactly the threads whose permutation is sorted, in the order of
  their turns.
\<close>

theorem tpqbogo_permutation_count:
  assumes "1 \<le> length (h ! arr)"
    and "complete_schedule (fact (length (h ! arr))) sched"
  shows "\<exists>res h'. tpqbogo sched arr h = (Inr res, h') \<and>
                   num_of_permutations res = fact (length (h ! arr)) \<and>
                   num_of_permutations res = int (length (permutations (h ! arr))) \<and>
                   num_of_permutations res = int (length (fst (fan_out arr h))) \<and>
                   num_of_permutations res = int (length sched) \<and>
                   map (\<lambda>t. h' ! snd t) (fst (fan_out arr h)) = permutations (h ! arr) \<and>
                   mset sched = mset [0..<length (fst (fan_out arr h))] \<and>
                   run_threads h' (fst (fan_out arr h)) sched []
                     = map (\<lambda>k. \<lparr>thread_id = int k, sorted_array = snd (fst (fan_out arr h) ! k)\<rparr>)
                           (filter (\<lambda>k. is_sorted (permutations (h ! arr) ! k)) sched) \<and>
                   successful_thread res = hd (run_threads h' (fst (fan_out arr h)) sched [])"
proof -
  let ?ps = "permutations (h ! arr)"
  let ?h' = "h @ ?ps @ ?ps"
  obtain k where run: "tpqbogo sched arr h =
             (Inr \<lparr>num_of_permutations = fact (length (h ! arr)),
                   successful_thread =
                     \<lparr>thread_id = int k,
                      sorted_array = length h + length ?ps + k\<rparr>\<rparr>, ?h')"
    using tpqbogo_returns [OF assms(2)] by blast
  have gen: "int (length ?ps) = fact (length (h ! arr))"
    by (simp add: length_permutations)
  have spawned: "length (fst (fan_out arr h)) = length ?ps"
    by (simp add: fan_out_eq)
  have sched: "complete_schedule (length ?ps) sched"
    using assms(2) by (simp add: length_permutations)
  have ran: "length sched = length ?ps"
    by (rule complete_schedule_length [OF sched])
  have heap: "snd (fan_out arr h) = ?h'"
    by (simp add: fan_out_eq)
  have copies: "map (\<lambda>t. ?h' ! snd t) (fst (fan_out arr h)) = ?ps"
    using fan_out_copies [of arr h] by (simp only: heap)
  have once: "mset sched = mset [0..<length (fst (fan_out arr h))]"
    using complete_schedule_mset [OF sched] by (simp only: spawned)
  have in_range: "\<forall>t \<in> set sched. t < length ?ps"
    using complete_schedule_set [OF sched] by simp
  have joined: "run_threads ?h' (fst (fan_out arr h)) sched [] = joined_results sched arr h"
    by (simp add: joined_results_def fan_out_eq)
  have "joined_results sched arr h
        = map (\<lambda>k. \<lparr>thread_id = int k, sorted_array = length h + length ?ps + k\<rparr>)
              (filter (\<lambda>k. is_sorted (?ps ! k)) sched)"
    by (rule joined_results_eq [OF in_range])
  also have "\<dots> = map (\<lambda>k. \<lparr>thread_id = int k, sorted_array = snd (fst (fan_out arr h) ! k)\<rparr>)
                      (filter (\<lambda>k. is_sorted (?ps ! k)) sched)"
  proof (rule map_cong [OF refl])
    fix t assume "t \<in> set (filter (\<lambda>k. is_sorted (?ps ! k)) sched)"
    then have "t < length ?ps" using in_range by simp
    then have "snd (fst (fan_out arr h) ! t) = length h + length ?ps + t"
      by (simp add: fan_out_eq)
    then show "\<lparr>thread_id = int t, sorted_array = length h + length ?ps + t\<rparr>
               = \<lparr>thread_id = int t, sorted_array = snd (fst (fan_out arr h) ! t)\<rparr>"
      by simp
  qed
  finally have checked: "run_threads ?h' (fst (fan_out arr h)) sched []
        = map (\<lambda>k. \<lparr>thread_id = int k, sorted_array = snd (fst (fan_out arr h) ! k)\<rparr>)
              (filter (\<lambda>k. is_sorted (?ps ! k)) sched)"
    by (simp only: joined)
  have "fst (tpqbogo sched arr h)
        = extract_result (fact (length (h ! arr))) (joined_results sched arr h)"
    by (simp add: tpqbogo_def)
  then have first: "\<lparr>thread_id = int k, sorted_array = length h + length ?ps + k\<rparr>
               = hd (run_threads ?h' (fst (fan_out arr h)) sched [])"
    unfolding run joined
    by (cases "joined_results sched arr h") (simp_all add: extract_result_def)
  show ?thesis
    unfolding run using gen spawned ran copies once checked first by simp
qed

theorem tpqbogo_permutation_count_witness:
  "1 \<le> length ([[2, 1]] ! 0 :: int list) \<and>
   complete_schedule (fact (length ([[2, 1]] ! 0 :: int list))) [1, 0] \<and>
   (\<exists>res h'. tpqbogo [1, 0] 0 [[2, 1]] = (Inr res, h') \<and>
              num_of_permutations res = fact (length ([[2, 1]] ! 0 :: int list)) \<and>
              num_of_permutations res = int (length (permutations ([[2, 1]] ! 0 :: int list))) \<and>
              num_of_permutations res = int (length (fst (fan_out 0 [[2, 1]]))) \<and>
              num_of_permutations res = int (length [1, 0 :: nat]) \<and>
              map (\<lambda>t. h' ! snd t) (fst (fan_out 0 [[2, 1]])) = permutations ([[2, 1]] ! 0) \<and>
              mset [1, 0 :: nat] = mset [0..<length (fst (fan_out 0 [[2, 1]]))] \<and>
              run_threads h' (fst (fan_out 0 [[2, 1]])) [1, 0] []
                = map (\<lambda>k. \<lparr>thread_id = int k, sorted_array = snd (fst (fan_out 0 [[2, 1]]) ! k)\<rparr>)
                      (filter (\<lambda>k. is_sorted (permutations ([[2, 1]] ! 0) ! k)) [1, 0]) \<and>
              successful_thread res = hd (run_threads h' (fst (fan_out 0 [[2, 1]])) [1, 0] []))"
proof -
  have len: "1 \<le> length ([[2, 1]] ! 0 :: int list)" by simp
  have sched: "complete_schedule (fact (length ([[2, 1]] ! 0 :: int list))) [1, 0]"
    by code_simp
  show ?thesis using len sched tpqbogo_permutation_count [OF len sched] by blast
qed

text \<open>
  C4 as the specification states it: for every size below 1 the run raises an
  \<open>InvalidSizeError\<close> that is fatal to the run but not to the process. The program has no
  such exception: for size 0, \<open>main\<close> calls \<open>exit(1)\<close>, which raises \<open>SystemExit\<close> with
  status 1, the request to end the interpreter.
\<close>

theorem main_size_zero_exits: "fst (main id 0 0 [] 0 []) = Inl (SystemExit 1)"
  by (simp add: main_def new_list_def)

text \<open>
  C4, amended: for every size below 1, \<open>main\<close> stops at its size check with \<open>exit(1)\<close>
  (\<open>SystemExit\<close> with status 1, which ends the process) before \<open>tpqbogo\<close> is called,
  whatever the schedule: the only list allocated is the (empty) array itself, so no
  permutation has been generated, no thread has been created with its private copy, and
  no result list exists.
\<close>

theorem main_rejects_small_size:
  assumes "array_size < 1"
  shows "main shuffle timer_start timer_end sched array_size h
         = (Inl (SystemExit 1), h @ [shuffle []])"
  using assms by (simp add: main_def new_list_def)

theorem main_rejects_small_size_witness:
  "(- 3 :: int) < 1 \<and>
   main rev 0 0 [0] (- 3) [[6]] = (Inl (SystemExit 1), [[6]] @ [rev []])"
proof -
  have a: "(- 3 :: int) < 1" by simp
  show ?thesis using a main_rejects_small_size [OF a, of rev 0 0 "[0]" "[[6]]"] by blast
qed

text \<open>
  C5: for every array of size at least 1, the result list read after the join barrier is
  not empty, so \<open>r[0]\<close> is defined and a \<open>Result\<close> is returned; and whenever the list is
  empty (which needs a run in which not every thread has run), the pass raises
  \<open>IndexError\<close> instead of returning a \<open>Result\<close>.
\<close>

theorem results_nonempty:
  "(1 \<le> length (h ! arr) \<and> complete_schedule (fact (length (h ! arr))) sched \<longrightarrow>
      joined_results sched arr h \<noteq> [] \<and> (\<exists>res. fst (tpqbogo sched arr h) = Inr res)) \<and>
   (joined_results sched' arr' h' = [] \<longrightarrow> fst (tpqbogo sched' arr' h') = Inl IndexError)"
proof (intro conjI impI)
  assume "1 \<le> length (h ! arr) \<and> complete_schedule (fact (length (h ! arr))) sched"
  then have "complete_schedule (length (permutations (h ! arr))) sched"
    by (simp add: length_permutations)
  then show "joined_results sched arr h \<noteq> []"
    using joined_results_first [of h arr sched] by auto
next
  assume "1 \<le> length (h ! arr) \<and> complete_schedule (fact (length (h ! arr))) sched"
  then have "complete_schedule (fact (length (h ! arr))) sched" by simp
  then show "\<exists>res. fst (tpqbogo sched arr h) = Inr res"
    using tpqbogo_returns [of h arr sched] by auto
next
  assume "joined_results sched' arr' h' = []"
  then show "fst (tpqbogo sched' arr' h') = Inl IndexError"
    by (simp add: tpqbogo_def extract_result_def)
qed

theorem results_nonempty_witness:
  "1 \<le> length ([[2, 1]] ! 0 :: int list) \<and>
   complete_schedule (fact (length ([[2, 1]] ! 0 :: int list))) [1, 0] \<and>
   joined_results [1, 0] 0 [[2, 1]] \<noteq> [] \<and>
   (\<exists>res. fst (tpqbogo [1, 0] 0 [[2, 1]]) = Inr res) \<and>
   joined_results [] 0 [[2, 1]] = [] \<and>
   fst (tpqbogo [] 0 [[2, 1]]) = Inl IndexError"
proof -
  have len: "1 \<le> length ([[2, 1]] ! 0 :: int list)" by simp
  have sched: "complete_schedule (fact (length ([[2, 1]] ! 0 :: int list))) [1, 0]"
    by code_simp
  have none: "joined_results [] 0 [[2, 1]] = []"
    by code_simp
  show ?thesis
    using len sched none results_nonempty [of "[[2, 1]]" 0 "[1, 0]" "[]" 0 "[[2, 1]]"]
    by blast
qed

text \<open>
  C6: for every input sequence of length \<open>N\<close>, the generation step produces exactly
  \<open>N!\<close> orderings; they are the arrangements of the positions \<open>0, ..., N - 1\<close>, every
  arrangement occurring exactly once, read off the input; and the threads created for
  them carry the ids \<open>0, ..., N! - 1\<close> in the order of generation, all different and
  non-negative, the thread at place \<open>k\<close> holding a copy of the \<open>k\<close>-th permutation.
\<close>

theorem permutations_enumeration:
  "length (permutations xs) = fact (length xs) \<and>
   permutations xs = map (map ((!) xs)) (permutations [0..<length xs]) \<and>
   distinct (permutations [0..<length xs]) \<and>
   set (permutations [0..<length xs]) = {p. mset p = mset [0..<length xs]} \<and>
   map fst (fst (fan_out arr h)) = map int [0..<fact (length (h ! arr))] \<and>
   distinct (map fst (fst (fan_out arr h))) \<and>
   map (\<lambda>t. snd (fan_out arr h) ! snd t) (fst (fan_out arr h)) = permutations (h ! arr)"
proof -
  have ids: "map fst (fst (fan_out arr h)) = map int [0..<fact (length (h ! arr))]"
    by (simp add: fan_out_eq length_permutations)
  have "distinct (map int [0..<fact (length (h ! arr))])"
    by (simp add: distinct_map)
  then have uniq: "distinct (map fst (fst (fan_out arr h)))"
    by (simp only: ids)
  have all: "set (permutations [0..<length xs]) = {p. mset p = mset [0..<length xs]}"
    by (rule set_eqI) (simp add: in_permutations_iff)
  have once: "distinct (permutations [0..<length xs])"
    by (rule distinct_permutations) simp
  show ?thesis
    using length_permutations [of xs] permutations_by_position [of xs] once all ids uniq
      fan_out_copies [of arr h]
    by blast
qed

text \<open>
  C7: after all threads have finished, the result list has exactly as many entries as
  there are sorted lists among the generated permutations, no thread occurs in it twice,
  and for an input of distinct elements it holds exactly one \<open>ThreadResult\<close>.
\<close>

theorem results_count:
  assumes "complete_schedule (fact (length (h ! arr))) sched"
  shows "length (joined_results sched arr h)
           = length (filter is_sorted (permutations (h ! arr))) \<and>
         distinct (map thread_id (joined_results sched arr h)) \<and>
         (distinct (h ! arr) \<longrightarrow> length (joined_results sched arr h) = 1)"
proof -
  let ?ps = "permutations (h ! arr)"
  have sched: "complete_schedule (length ?ps) sched"
    using assms by (simp add: length_permutations)
  have count: "length (joined_results sched arr h) = length (filter is_sorted ?ps)"
    by (rule length_joined_results [OF sched])
  have in_range: "\<forall>t \<in> set sched. t < length ?ps"
    using complete_schedule_set [OF sched] by simp
  have "distinct sched"
    using complete_schedule_mset [OF sched] by (metis distinct_upt mset_eq_imp_distinct_iff)
  then have "distinct (map int (filter (\<lambda>k. is_sorted (?ps ! k)) sched))"
    by (simp add: distinct_map)
  moreover have "map thread_id (joined_results sched arr h)
                 = map int (filter (\<lambda>k. is_sorted (?ps ! k)) sched)"
    by (simp add: joined_results_eq [OF in_range] comp_def)
  ultimately have ids: "distinct (map thread_id (joined_results sched arr h))"
    by simp
  have "length (joined_results sched arr h) = 1" if "distinct (h ! arr)"
    using count sorted_permutation_unique [OF that] by simp
  then show ?thesis using count ids by blast
qed

theorem results_count_witness:
  "complete_schedule (fact (length ([[2, 3, 1]] ! 0 :: int list))) [3, 0, 5, 1, 4, 2] \<and>
   length (joined_results [3, 0, 5, 1, 4, 2] 0 [[2, 3, 1]])
     = length (filter is_sorted (permutations ([[2, 3, 1]] ! 0))) \<and>
   distinct (map thread_id (joined_results [3, 0, 5, 1, 4, 2] 0 [[2, 3, 1]])) \<and>
   distinct ([[2, 3, 1]] ! 0 :: int list) \<and>
   length (joined_results [3, 0, 5, 1, 4, 2] 0 [[2, 3, 1]]) = 1"
proof -
  have sched: "complete_schedule (fact (length ([[2, 3, 1]] ! 0 :: int list))) [3, 0, 5, 1, 4, 2]"
    by code_simp
  have dist: "distinct ([[2, 3, 1]] ! 0 :: int list)" by simp
  show ?thesis using sched dist results_count [OF sched] by blast
qed

text \<open>
  C8: the sortedness check is true if and only if every adjacent pair
  \<open>(seq[i], seq[i+1])\<close> satisfies \<open>seq[i] <= seq[i+1]\<close>; in particular it is true of every
  sequence of length 0 or 1.
\<close>

theorem is_sorted_adjacent:
  "(is_sorted seq \<longleftrightarrow> (\<forall>i. i + 1 < length seq \<longrightarrow> seq ! i \<le> seq ! (i + 1))) \<and>
   (length seq \<le> 1 \<longrightarrow> is_sorted seq)"
proof
  show "is_sorted seq \<longleftrightarrow> (\<forall>i. i + 1 < length seq \<longrightarrow> seq ! i \<le> seq ! (i + 1))"
    by (simp add: is_sorted_def list_all_length less_diff_conv)
next
  show "length seq \<le> 1 \<longrightarrow> is_sorted seq"
    by (simp add: is_sorted_def list_all_length)
qed

theorem is_sorted_adjacent_witness:
  "is_sorted [1, 2, 2] \<and> \<not> is_sorted [2, 1] \<and> length [5 :: int] \<le> 1 \<and> is_sorted [5]"
proof -
  have up: "\<forall>i. i + 1 < length [1, 2, 2 :: int] \<longrightarrow> [1, 2, 2 :: int] ! i \<le> [1, 2, 2] ! (i + 1)"
    by (simp add: nth_Cons split: nat.splits)
  have down: "\<not> (\<forall>i. i + 1 < length [2, 1 :: int] \<longrightarrow> [2, 1 :: int] ! i \<le> [2, 1] ! (i + 1))"
    by (simp add: exI [of _ 0])
  have one: "length [5 :: int] \<le> 1" by simp
  show ?thesis
    using up down one is_sorted_adjacent [of "[1, 2, 2]"] is_sorted_adjacent [of "[2, 1]"]
      is_sorted_adjacent [of "[5]"]
    by blast
qed

text \<open>
  C9: \<open>tpqbogo\<close> does not change the list it is given, nor any other list that exists
  when it is called: it only allocates new ones. And for a size of at least 1, the
  \<open>original_array\<close> of the \<open>MainResult\<close> refers to the array as \<open>shuffle\<close> left it, before
  the sort, also after the sort has run.
\<close>

theorem input_array_unchanged:
  assumes "arr < length h_t"
    and "1 \<le> array_size"
    and "mset (shuffle [1..array_size]) = mset [1..array_size]"
    and "complete_schedule (fact (nat array_size)) sched"
  shows "snd (tpqbogo sched_t arr h_t) ! arr = h_t ! arr \<and>
         take (length h_t) (snd (tpqbogo sched_t arr h_t)) = h_t \<and>
         (\<exists>mr h'. main shuffle timer_start timer_end sched array_size h = (Inr mr, h') \<and>
                  h' ! original_array mr = shuffle [1..array_size] \<and>
                  take (length h) h' = h)"
proof -
  have heap: "snd (tpqbogo sched_t arr h_t)
              = h_t @ permutations (h_t ! arr) @ permutations (h_t ! arr)"
    by (simp add: tpqbogo_def fan_out_eq)
  have same: "snd (tpqbogo sched_t arr h_t) ! arr = h_t ! arr"
    unfolding heap using assms(1) by (simp add: nth_append)
  have frame: "take (length h_t) (snd (tpqbogo sched_t arr h_t)) = h_t"
    unfolding heap by simp
  let ?h2 = "h @ [shuffle [1..array_size]]"
  have "length (shuffle [1..array_size]) = length [1..array_size]"
    using assms(3) by (metis size_mset)
  then have "length (?h2 ! length h) = nat array_size" using assms(2) by simp
  then have "complete_schedule (fact (length (?h2 ! length h))) sched"
    using assms(4) by simp
  then obtain k where "tpqbogo sched (length h) ?h2 =
             (Inr \<lparr>num_of_permutations = fact (length (?h2 ! length h)),
                   successful_thread =
                     \<lparr>thread_id = int k,
                      sorted_array = length ?h2 + length (permutations (?h2 ! length h)) + k\<rparr>\<rparr>,
              ?h2 @ permutations (?h2 ! length h) @ permutations (?h2 ! length h))"
    using tpqbogo_returns [of ?h2 "length h" sched] by blast
  then have "\<exists>mr h'. main shuffle timer_start timer_end sched array_size h = (Inr mr, h') \<and>
                  h' ! original_array mr = shuffle [1..array_size] \<and>
                  take (length h) h' = h"
    using main_calls_tpqbogo [OF assms(2), of shuffle timer_start timer_end sched h]
    by (simp add: nth_append)
  then show ?thesis using same frame by blast
qed

theorem input_array_unchanged_witness:
  "(0 :: nat) < length [[4, 4], [9 :: int]] \<and> (1 :: int) \<le> 3 \<and>
   mset (rev [1..3]) = mset [1..3] \<and>
   complete_schedule (fact (nat 3)) [2, 0, 1, 5, 3, 4] \<and>
   snd (tpqbogo [1, 0] 0 [[4, 4], [9]]) ! 0 = [[4, 4], [9]] ! 0 \<and>
   take (length [[4, 4], [9 :: int]]) (snd (tpqbogo [1, 0] 0 [[4, 4], [9]])) = [[4, 4], [9]] \<and>
   (\<exists>mr h'. main rev 10 25 [2, 0, 1, 5, 3, 4] 3 [[8]] = (Inr mr, h') \<and>
            h' ! original_array mr = rev [1..3] \<and>
            take (length [[8 :: int]]) h' = [[8]])"
proof -
  have a: "(0 :: nat) < length [[4, 4], [9 :: int]]" by simp
  have b: "(1 :: int) \<le> 3" by simp
  have c: "mset (rev [1..3]) = mset [1..3]" by simp
  have d: "complete_schedule (fact (nat 3)) [2, 0, 1, 5, 3, 4]" by code_simp
  show ?thesis
    using a b c d
      input_array_unchanged [where shuffle = rev and sched_t = "[1, 0]" and timer_start = 10
        and timer_end = 25 and h = "[[8]]", OF a b c d]
    by blast
qed

text \<open>
  C10: called on the empty list, \<open>tpqbogo\<close> raises nothing (the check of the size is in
  \<open>main\<close> only): it returns a \<open>Result\<close> with \<open>num_of_permutations\<close> 1 and a
  \<open>successful_thread\<close> with \<open>thread_id\<close> 0 whose \<open>sorted_array\<close> is the empty list.
\<close>

theorem tpqbogo_empty_list:
  assumes "h ! arr = []"
    and "complete_schedule (fact (length (h ! arr))) sched"
  shows "\<exists>res h'. tpqbogo sched arr h = (Inr res, h') \<and>
                   num_of_permutations res = 1 \<and>
                   thread_id (successful_thread res) = 0 \<and>
                   h' ! sorted_array (successful_thread res) = []"
proof -
  have ps: "permutations (h ! arr) = [[]]"
    using assms(1) by (simp add: permutations_Nil)
  obtain k where k: "k < length (permutations (h ! arr))"
    and run: "tpqbogo sched arr h =
             (Inr \<lparr>num_of_permutations = fact (length (h ! arr)),
                   successful_thread =
                     \<lparr>thread_id = int k,
                      sorted_array = length h + length (permutations (h ! arr)) + k\<rparr>\<rparr>,
              h @ permutations (h ! arr) @ permutations (h ! arr))"
    using tpqbogo_returns [OF assms(2)] by blast
  have k0: "k = 0" using k ps by simp
  show ?thesis
    unfolding run using assms(1) k0 ps by (simp add: nth_append)
qed

theorem tpqbogo_empty_list_witness:
  "[[5], []] ! 1 = ([] :: int list) \<and>
   complete_schedule (fact (length ([[5], []] ! 1 :: int list))) [0] \<and>
   (\<exists>res h'. tpqbogo [0] 1 [[5], []] = (Inr res, h') \<and>
              num_of_permutations res = 1 \<and>
              thread_id (successful_thread res) = 0 \<and>
              h' ! sorted_array (successful_thread res) = [])"
proof -
  have a: "[[5], []] ! 1 = ([] :: int list)" by simp
  have b: "complete_schedule (fact (length ([[5], []] ! 1 :: int list))) [0]" by code_simp
  show ?thesis using a b tpqbogo_empty_list [OF a b] by blast
qed

end
